theory Spec2Isabelle
  imports Main "HOL-Library.AList" "HOL-Library.Char_ord"
begin

section \<open>Data model of server.js\<close>

text \<open>
  Strings are lists of characters, one \<^typ>\<open>char\<close> per code unit of the JavaScript
  string. The accented letters of the Portuguese messages are code units below 256 and are
  written with their code (\<open>CHR 0xE9\<close> is e-acute).

  A JSON body is an association list of field names and values, in the order of the object
  literal of the source.
\<close>

datatype jvalue = JBool bool | JStr string

type_synonym jobject = "(string \<times> jvalue) list"

record response =
  statusCode :: nat
  body :: jobject

text \<open>\<open>res.json(obj)\<close> answers with status 200, \<open>res.status(n).json(obj)\<close> with \<open>n\<close>.\<close>

definition json :: "jobject \<Rightarrow> response" where
  "json obj = \<lparr>statusCode = 200, body = obj\<rparr>"

definition status_json :: "nat \<Rightarrow> jobject \<Rightarrow> response" where
  "status_json n obj = \<lparr>statusCode = n, body = obj\<rparr>"

text \<open>The value stored by \<open>pendingBuilds.set\<close>: an object with three string fields.\<close>

record build_info =
  buildId :: string
  status :: string
  startedAt :: string

text \<open>
  The two module-level containers: \<open>registeredDevices\<close> is a \<open>Set\<close>, \<open>pendingBuilds\<close> a
  \<open>Map\<close> from udid to the build object.
\<close>

record server_state =
  registeredDevices :: "string set"
  pendingBuilds :: "string \<rightharpoonup> build_info"

definition init_state :: server_state where
  "init_state = \<lparr>registeredDevices = {}, pendingBuilds = Map.empty\<rparr>"

subsection \<open>The subprocess and the environment\<close>

text \<open>
  \<open>execAsync(command, {timeout, maxBuffer})\<close> either resolves with the captured output or
  rejects with an error that carries \<open>message\<close> and \<open>stderr\<close> (a non-zero exit, a timeout
  and an overflowing buffer all reject).
\<close>

record exec_call =
  command :: string
  timeout :: nat
  maxBuffer :: nat

datatype exec_result =
  Resolved string string
  | Rejected string string

text \<open>
  What a handler reads from outside the two containers: the directory above \<open>__dirname\<close>,
  the behaviour of the external tool, and the clock (\<open>new Date().toISOString()\<close>).
\<close>

record env =
  appDir :: string
  execAsync :: "exec_call \<Rightarrow> exec_result"
  nowISO :: string

text \<open>
  The result of handling one request: the response, the state afterwards, and the
  subprocess calls made on the way.
\<close>

record outcome =
  resp :: response
  post :: server_state
  calls :: "exec_call list"

subsection \<open>Message literals\<close>

definition msg_udid_obrigatorio :: string where
  "msg_udid_obrigatorio = ''UDID '' @ [CHR 0xE9] @ '' obrigat'' @ [CHR 0xF3] @ ''rio''"

definition msg_ja_registrado :: string where
  "msg_ja_registrado = ''Dispositivo j'' @ [CHR 0xE1] @ '' registrado''"

definition msg_ja_estava_registrado :: string where
  "msg_ja_estava_registrado = ''Dispositivo j'' @ [CHR 0xE1] @ '' estava registrado''"

definition msg_build_em_andamento :: string where
  "msg_build_em_andamento =
     ''Build j'' @ [CHR 0xE1] @ '' est'' @ [CHR 0xE1] @ '' em andamento''"

definition msg_build_note :: string where
  "msg_build_note =
     ''O build pode levar alguns minutos. Voc'' @ [CHR 0xEA] @ '' ser'' @ [CHR 0xE1]
       @ '' notificado quando estiver pronto.''"

section \<open>POST /api/register-device\<close>

text \<open>
  The body is the object \<open>express.json()\<close> left in \<open>req.body\<close>; a field is \<open>None\<close> when
  the object has no such property, and a string otherwise. With such a body nothing
  outside the inner \<open>try\<close> throws, so the outer \<open>catch\<close> of the handler (status 500,
  \<open>Erro interno do servidor\<close>) is not entered and has no branch here. The \<open>console\<close>
  output is left out.
\<close>

record register_request =
  udid :: "string option"
  deviceName :: "string option"

text \<open>\<open>!x\<close> on an optional string: true for a missing property and for the empty string.\<close>

definition falsy :: "string option \<Rightarrow> bool" where
  "falsy x = (case x of None \<Rightarrow> True | Some s \<Rightarrow> s = [])"

text \<open>\<open>s.slice(-8)\<close>: the last eight code units, the whole string when it is shorter.\<close>

definition slice_last8 :: "string \<Rightarrow> string" where
  "slice_last8 s = drop (length s - 8) s"

text \<open>\<open>deviceName || `iPhone-${udid.slice(-8)}`\<close>\<close>

definition deviceNameSafe :: "string option \<Rightarrow> string \<Rightarrow> string" where
  "deviceNameSafe dn u = (if falsy dn then ''iPhone-'' @ slice_last8 u else the dn)"

definition dq :: string where
  "dq = [CHR 0x22]"

definition register_command :: "string \<Rightarrow> string \<Rightarrow> string \<Rightarrow> string" where
  "register_command dir u name =
     ''cd '' @ dq @ dir @ dq @ '' && npx eas-cli device:create --udid '' @ u
       @ '' --name '' @ dq @ name @ dq @ '' --non-interactive''"

definition register_call :: "string \<Rightarrow> string \<Rightarrow> string \<Rightarrow> exec_call" where
  "register_call dir u name =
     \<lparr>command = register_command dir u name, timeout = 30000, maxBuffer = 1024 * 1024 * 10\<rparr>"

text \<open>\<open>haystack.includes(needle)\<close>: the needle occurs as a contiguous run of code units.\<close>

fun includes_str :: "string \<Rightarrow> string \<Rightarrow> bool" where
  "includes_str [] needle = (needle = [])"
| "includes_str (c # cs) needle =
     (take (length needle) (c # cs) = needle \<or> includes_str cs needle)"

definition register_device :: "env \<Rightarrow> server_state \<Rightarrow> register_request \<Rightarrow> outcome" where
  "register_device e s req =
     (if falsy (udid req) then
        \<lparr>resp = status_json 400
                  [(''success'', JBool False), (''error'', JStr msg_udid_obrigatorio)],
         post = s, calls = []\<rparr>
      else
        let u = the (udid req) in
        if u \<in> registeredDevices s then
          \<lparr>resp = json [(''success'', JBool True), (''message'', JStr msg_ja_registrado),
                        (''alreadyRegistered'', JBool True), (''udid'', JStr u)],
           post = s, calls = []\<rparr>
        else
          let c = register_call (appDir e) u (deviceNameSafe (deviceName req) u) in
          case execAsync e c of
            Resolved out err \<Rightarrow>
              \<lparr>resp = json [(''success'', JBool True),
                            (''message'', JStr ''Dispositivo registrado com sucesso''),
                            (''udid'', JStr u), (''output'', JStr out)],
               post = s\<lparr>registeredDevices := insert u (registeredDevices s)\<rparr>,
               calls = [c]\<rparr>
          | Rejected msg err \<Rightarrow>
              if includes_str msg ''already registered'' \<or> includes_str msg ''already exists'' then
                \<lparr>resp = json [(''success'', JBool True),
                              (''message'', JStr msg_ja_estava_registrado),
                              (''udid'', JStr u), (''alreadyRegistered'', JBool True)],
                 post = s\<lparr>registeredDevices := insert u (registeredDevices s)\<rparr>,
                 calls = [c]\<rparr>
              else
                \<lparr>resp = status_json 500
                          [(''success'', JBool False),
                           (''error'', JStr ''Erro ao registrar dispositivo''),
                           (''details'', JStr msg), (''stderr'', JStr err)],
                 post = s, calls = [c]\<rparr>)"

section \<open>POST /api/trigger-build\<close>

record trigger_request =
  t_udid :: "string option"

text \<open>
  The character class \<open>[a-zA-Z0-9-]\<close>. Under the flag \<open>i\<close> (without \<open>u\<close>) a code unit
  of 128 or more never canonicalises to an ASCII letter, so the class still holds the
  ASCII letters, digits and the hyphen only.
\<close>

definition is_token_char :: "char \<Rightarrow> bool" where
  "is_token_char c =
     ((CHR ''a'' \<le> c \<and> c \<le> CHR ''z'') \<or> (CHR ''A'' \<le> c \<and> c \<le> CHR ''Z'')
        \<or> (CHR ''0'' \<le> c \<and> c \<le> CHR ''9'') \<or> c = CHR ''-'')"

text \<open>
  Canonicalisation of the flag \<open>i\<close>: an ASCII lower-case letter becomes its upper-case
  letter. Every other code unit is compared here as itself; the pattern's literal part is
  ASCII, and no code unit of 128 or more canonicalises into ASCII.
\<close>

definition canonicalize :: "char \<Rightarrow> char" where
  "canonicalize c =
     (if CHR ''a'' \<le> c \<and> c \<le> CHR ''z'' then char_of (of_char c - 32 :: nat) else c)"

text \<open>The literal part of the pattern at the start of the input: what follows it.\<close>

fun match_literal :: "string \<Rightarrow> string \<Rightarrow> string option" where
  "match_literal [] s = Some s"
| "match_literal (p # ps) [] = None"
| "match_literal (p # ps) (c # cs) =
     (if canonicalize p = canonicalize c then match_literal ps cs else None)"

text \<open>
  The whole pattern \<open>lit([a-zA-Z0-9-]+)\<close> at the start of the input: the capture group,
  a greedy and non-empty run of class characters.
\<close>

definition match_here :: "string \<Rightarrow> string \<Rightarrow> string option" where
  "match_here lit s =
     (case match_literal lit s of
        None \<Rightarrow> None
      | Some rest \<Rightarrow>
          (let tok = takeWhile is_token_char rest in if tok = [] then None else Some tok))"

text \<open>
  \<open>stdout.match(/lit([a-zA-Z0-9-]+)/i)\<close>: the leftmost position where the pattern matches,
  \<open>None\<close> for \<open>null\<close>, otherwise element 1 of the result.
\<close>

fun regex_match :: "string \<Rightarrow> string \<Rightarrow> string option" where
  "regex_match lit [] = match_here lit []"
| "regex_match lit (c # cs) =
     (case match_here lit (c # cs) of
        Some tok \<Rightarrow> Some tok
      | None \<Rightarrow> regex_match lit cs)"

definition extract_build_id :: "string \<Rightarrow> string" where
  "extract_build_id out =
     (let buildIdMatch =
            (case regex_match ''build ID: '' out of
               Some m \<Rightarrow> Some m
             | None \<Rightarrow> regex_match ''Build ID: '' out)
      in case buildIdMatch of Some m \<Rightarrow> m | None \<Rightarrow> ''unknown'')"

definition build_command :: "string \<Rightarrow> string" where
  "build_command dir =
     ''cd '' @ dq @ dir @ dq
       @ '' && npx eas-cli build --platform ios --profile ad-hoc --non-interactive --no-wait''"

definition build_call :: "string \<Rightarrow> exec_call" where
  "build_call dir = \<lparr>command = build_command dir, timeout = 60000, maxBuffer = 1024 * 1024 * 10\<rparr>"

definition trigger_build :: "env \<Rightarrow> server_state \<Rightarrow> trigger_request \<Rightarrow> outcome" where
  "trigger_build e s req =
     (if falsy (t_udid req) then
        \<lparr>resp = status_json 400
                  [(''success'', JBool False), (''error'', JStr msg_udid_obrigatorio)],
         post = s, calls = []\<rparr>
      else
        let u = the (t_udid req) in
        case pendingBuilds s u of
          Some buildInfo \<Rightarrow>
            \<lparr>resp = json [(''success'', JBool True), (''message'', JStr msg_build_em_andamento),
                          (''buildId'', JStr (buildId buildInfo)),
                          (''status'', JStr (status buildInfo))],
             post = s, calls = []\<rparr>
        | None \<Rightarrow>
            let c = build_call (appDir e) in
            case execAsync e c of
              Resolved out err \<Rightarrow>
                let bid = extract_build_id out in
                \<lparr>resp = json [(''success'', JBool True),
                              (''message'', JStr ''Build disparado com sucesso''),
                              (''buildId'', JStr bid), (''status'', JStr ''pending''),
                              (''note'', JStr msg_build_note)],
                 post = s\<lparr>pendingBuilds := (pendingBuilds s)
                            (u \<mapsto> \<lparr>buildId = bid, status = ''pending'', startedAt = nowISO e\<rparr>)\<rparr>,
                 calls = [c]\<rparr>
            | Rejected msg err \<Rightarrow>
                \<lparr>resp = status_json 500
                          [(''success'', JBool False), (''error'', JStr ''Erro ao disparar build''),
                           (''details'', JStr msg), (''stderr'', JStr err)],
                 post = s, calls = [c]\<rparr>)"

section \<open>GET /api/build-status/:udid\<close>

text \<open>\<open>{success: true, ...buildInfo}\<close>: the three stored fields follow \<open>success\<close>.\<close>

definition build_info_fields :: "build_info \<Rightarrow> jobject" where
  "build_info_fields b =
     [(''buildId'', JStr (buildId b)), (''status'', JStr (status b)),
      (''startedAt'', JStr (startedAt b))]"

definition build_status :: "server_state \<Rightarrow> string \<Rightarrow> outcome" where
  "build_status s u =
     (case pendingBuilds s u of
        None \<Rightarrow>
          \<lparr>resp = json [(''success'', JBool False),
                        (''message'', JStr ''Nenhum build encontrado para este dispositivo'')],
           post = s, calls = []\<rparr>
      | Some buildInfo \<Rightarrow>
          \<lparr>resp = json ((''success'', JBool True) # build_info_fields buildInfo),
           post = s, calls = []\<rparr>)"

section \<open>GET /manifest.plist\<close>

text \<open>
  What the handler finds at \<open>manifestPath\<close>: \<open>existsSync\<close> is false, or \<open>readFileSync\<close>
  throws, or it returns the content.
\<close>

datatype manifest_file = Absent | Unreadable | Content string

record text_response =
  headers :: "(string \<times> string) list"
  t_status :: nat
  t_body :: string

text \<open>\<open>res.setHeader(name, value)\<close> replaces the value of a header already set.\<close>

definition setHeader :: "string \<Rightarrow> string \<Rightarrow> text_response \<Rightarrow> text_response" where
  "setHeader name v r = r\<lparr>headers := AList.update name v (headers r)\<rparr>"

definition send :: "string \<Rightarrow> text_response \<Rightarrow> text_response" where
  "send b r = r\<lparr>t_body := b\<rparr>"

definition set_status :: "nat \<Rightarrow> text_response \<Rightarrow> text_response" where
  "set_status n r = r\<lparr>t_status := n\<rparr>"

definition fresh_response :: text_response where
  "fresh_response = \<lparr>headers = [], t_status = 200, t_body = []\<rparr>"

definition manifest_plist :: "manifest_file \<Rightarrow> text_response" where
  "manifest_plist f =
     (let res = setHeader ''Access-Control-Allow-Origin'' ''*''
                 (setHeader ''Expires'' ''0''
                 (setHeader ''Pragma'' ''no-cache''
                 (setHeader ''Cache-Control'' ''no-cache, no-store, must-revalidate''
                 (setHeader ''Content-Type'' ''application/xml; charset=utf-8''
                  fresh_response))))
      in case f of
           Absent \<Rightarrow> send ''manifest.plist not found'' (set_status 404 res)
         | Content manifestContent \<Rightarrow> send manifestContent res
         | Unreadable \<Rightarrow> send ''Error reading manifest.plist'' (set_status 500 res))"

section \<open>Sequences of requests\<close>

datatype operation =
  Register env register_request
  | TriggerBuild env trigger_request
  | GetStatus string

fun handle :: "server_state \<Rightarrow> operation \<Rightarrow> outcome" where
  "handle s (Register e req) = register_device e s req"
| "handle s (TriggerBuild e req) = trigger_build e s req"
| "handle s (GetStatus u) = build_status s u"

definition step :: "server_state \<Rightarrow> operation \<Rightarrow> server_state" where
  "step s op = post (handle s op)"

definition run :: "server_state \<Rightarrow> operation list \<Rightarrow> server_state" where
  "run s ops = foldl step s ops"

section \<open>Overlapping requests\<close>

text \<open>
  The two POST handlers are \<open>async\<close>: each runs without interruption up to
  \<open>await execAsync(...)\<close>, and its remainder runs when the subprocess has finished. In
  between, other handlers run, so the remainder sees the containers as they are then.
  The definitions below are the two halves of each handler; \<open>register_device\<close> and
  \<open>trigger_build\<close> above are the halves run back to back.
\<close>

text \<open>Up to the \<open>await\<close>: the answer given at once, or the identifier and the call awaited.\<close>

definition register_until_await ::
  "env \<Rightarrow> server_state \<Rightarrow> register_request \<Rightarrow> response + string \<times> exec_call" where
  "register_until_await e s req =
     (if falsy (udid req) then
        Inl (status_json 400
               [(''success'', JBool False), (''error'', JStr msg_udid_obrigatorio)])
      else
        let u = the (udid req) in
        if u \<in> registeredDevices s then
          Inl (json [(''success'', JBool True), (''message'', JStr msg_ja_registrado),
                     (''alreadyRegistered'', JBool True), (''udid'', JStr u)])
        else Inr (u, register_call (appDir e) u (deviceNameSafe (deviceName req) u)))"

text \<open>After the \<open>await\<close>, in the state found then.\<close>

definition register_after_await ::
  "server_state \<Rightarrow> string \<Rightarrow> exec_call \<Rightarrow> exec_result \<Rightarrow> outcome" where
  "register_after_await s u c result =
     (case result of
        Resolved out err \<Rightarrow>
          \<lparr>resp = json [(''success'', JBool True),
                        (''message'', JStr ''Dispositivo registrado com sucesso''),
                        (''udid'', JStr u), (''output'', JStr out)],
           post = s\<lparr>registeredDevices := insert u (registeredDevices s)\<rparr>,
           calls = [c]\<rparr>
      | Rejected msg err \<Rightarrow>
          if includes_str msg ''already registered'' \<or> includes_str msg ''already exists'' then
            \<lparr>resp = json [(''success'', JBool True),
                          (''message'', JStr msg_ja_estava_registrado),
                          (''udid'', JStr u), (''alreadyRegistered'', JBool True)],
             post = s\<lparr>registeredDevices := insert u (registeredDevices s)\<rparr>,
             calls = [c]\<rparr>
          else
            \<lparr>resp = status_json 500
                      [(''success'', JBool False),
                       (''error'', JStr ''Erro ao registrar dispositivo''),
                       (''details'', JStr msg), (''stderr'', JStr err)],
             post = s, calls = [c]\<rparr>)"

definition trigger_until_await ::
  "env \<Rightarrow> server_state \<Rightarrow> trigger_request \<Rightarrow> response + string \<times> exec_call" where
  "trigger_until_await e s req =
     (if falsy (t_udid req) then
        Inl (status_json 400
               [(''success'', JBool False), (''error'', JStr msg_udid_obrigatorio)])
      else
        let u = the (t_udid req) in
        case pendingBuilds s u of
          Some buildInfo \<Rightarrow>
            Inl (json [(''success'', JBool True), (''message'', JStr msg_build_em_andamento),
                       (''buildId'', JStr (buildId buildInfo)),
                       (''status'', JStr (status buildInfo))])
        | None \<Rightarrow> Inr (u, build_call (appDir e)))"

text \<open>The clock is read after the \<open>await\<close>.\<close>

definition trigger_after_await ::
  "string \<Rightarrow> server_state \<Rightarrow> string \<Rightarrow> exec_call \<Rightarrow> exec_result \<Rightarrow> outcome" where
  "trigger_after_await now s u c result =
     (case result of
        Resolved out err \<Rightarrow>
          let bid = extract_build_id out in
          \<lparr>resp = json [(''success'', JBool True),
                        (''message'', JStr ''Build disparado com sucesso''),
                        (''buildId'', JStr bid), (''status'', JStr ''pending''),
                        (''note'', JStr msg_build_note)],
           post = s\<lparr>pendingBuilds := (pendingBuilds s)
                      (u \<mapsto> \<lparr>buildId = bid, status = ''pending'', startedAt = now\<rparr>)\<rparr>,
           calls = [c]\<rparr>
      | Rejected msg err \<Rightarrow>
          \<lparr>resp = status_json 500
                    [(''success'', JBool False), (''error'', JStr ''Erro ao disparar build''),
                     (''details'', JStr msg), (''stderr'', JStr err)],
           post = s, calls = [c]\<rparr>)"

text \<open>A handler suspended at its \<open>await\<close> keeps the identifier and the call it made.\<close>

datatype awaiting = AwaitRegister string exec_call | AwaitBuild string exec_call

fun awaited_udid :: "awaiting \<Rightarrow> string" where
  "awaited_udid (AwaitRegister u c) = u"
| "awaited_udid (AwaitBuild u c) = u"

text \<open>The process: the two containers and the handlers that wait for their subprocess.\<close>

record process =
  store :: server_state
  suspended :: "awaiting list"

definition init_process :: process where
  "init_process = \<lparr>store = init_state, suspended = []\<rparr>"

text \<open>
  One move of the process: a handler reaches its \<open>await\<close>, or a suspended handler
  resumes with whatever result its subprocess had. A request answered at once and a status
  query leave the process as it is.
\<close>

inductive proc_step :: "process \<Rightarrow> process \<Rightarrow> bool" where
  suspend_register:
    "register_until_await e (store p) req = Inr (u, c) \<Longrightarrow>
       proc_step p (p\<lparr>suspended := AwaitRegister u c # suspended p\<rparr>)"
| resume_register:
    "AwaitRegister u c \<in> set (suspended p) \<Longrightarrow>
       proc_step p \<lparr>store = post (register_after_await (store p) u c result),
                    suspended = remove1 (AwaitRegister u c) (suspended p)\<rparr>"
| suspend_build:
    "trigger_until_await e (store p) req = Inr (u, c) \<Longrightarrow>
       proc_step p (p\<lparr>suspended := AwaitBuild u c # suspended p\<rparr>)"
| resume_build:
    "AwaitBuild u c \<in> set (suspended p) \<Longrightarrow>
       proc_step p \<lparr>store = post (trigger_after_await now (store p) u c result),
                    suspended = remove1 (AwaitBuild u c) (suspended p)\<rparr>"

inductive proc_reachable :: "process \<Rightarrow> bool" where
  proc_init: "proc_reachable init_process"
| proc_next: "proc_reachable p \<Longrightarrow> proc_step p q \<Longrightarrow> proc_reachable q"

section \<open>Notions of the specification\<close>

text \<open>The needle is a substring of the text.\<close>

definition has_substring :: "string \<Rightarrow> string \<Rightarrow> bool" where
  "has_substring txt needle = (\<exists>pre suf. txt = pre @ needle @ suf)"

text \<open>Two texts that differ at most in the case of their ASCII letters.\<close>

definition same_ignoring_case :: "string \<Rightarrow> string \<Rightarrow> bool" where
  "same_ignoring_case a b = (map canonicalize a = map canonicalize b)"

text \<open>
  An occurrence of \<open>build ID: <token>\<close> in the output, in any case of the letters: after
  \<open>pre\<close> comes the literal part, then the token \<open>tok\<close>, a non-empty run of alphanumerics
  and hyphens, then \<open>suf\<close>.
\<close>

definition build_id_occurrence :: "string \<Rightarrow> string \<Rightarrow> string \<Rightarrow> string \<Rightarrow> bool" where
  "build_id_occurrence out pre tok suf =
     (\<exists>lit. out = pre @ lit @ tok @ suf \<and> same_ignoring_case lit ''build ID: ''
        \<and> tok \<noteq> [] \<and> (\<forall>c\<in>set tok. is_token_char c))"

text \<open>The shape of a build identifier: the sentinel, or a token.\<close>

definition build_id_shape :: "string \<Rightarrow> bool" where
  "build_id_shape b = (b = ''unknown'' \<or> (b \<noteq> [] \<and> (\<forall>c\<in>set b. is_token_char c)))"

section \<open>The invariant of the two containers\<close>

text \<open>
  What every handler keeps: the empty string is no member and no key, and every stored
  build object has the status \<open>pending\<close> and an identifier of the shape above.
\<close>

definition state_inv :: "server_state \<Rightarrow> bool" where
  "state_inv s =
     ([] \<notin> registeredDevices s \<and> pendingBuilds s [] = None
        \<and> (\<forall>u b. pendingBuilds s u = Some b \<longrightarrow>
              status b = ''pending'' \<and> build_id_shape (buildId b)))"

section \<open>Example environments\<close>

text \<open>A tool that exits with 0 and prints the given text, and one that fails with the given message.\<close>

definition tool_prints :: "string \<Rightarrow> env" where
  "tool_prints out =
     \<lparr>appDir = ''/srv/app'', execAsync = (\<lambda>c. Resolved out []),
      nowISO = ''2024-05-01T10:00:00.000Z''\<rparr>"

definition tool_fails :: "string \<Rightarrow> env" where
  "tool_fails msg =
     \<lparr>appDir = ''/srv/app'', execAsync = (\<lambda>c. Rejected msg ''boom''),
      nowISO = ''2024-05-01T10:00:00.000Z''\<rparr>"

section \<open>Substring search\<close>

lemma includes_str_iff: "includes_str hay needle \<longleftrightarrow> has_substring hay needle"
  unfolding has_substring_def
proof (induction hay)
  case Nil
  then show ?case by auto
next
  case (Cons c cs)
  show ?case
  proof
    assume "includes_str (c # cs) needle"
    then consider "take (length needle) (c # cs) = needle" | "includes_str cs needle" by auto
    then show "\<exists>pre suf. c # cs = pre @ needle @ suf"
    proof cases
      case 1
      then have "c # cs = [] @ needle @ drop (length needle) (c # cs)"
        by (metis append_Nil append_take_drop_id)
      then show ?thesis by blast
    next
      case 2
      then obtain pre suf where "cs = pre @ needle @ suf" using Cons.IH by blast
      then have "c # cs = (c # pre) @ needle @ suf" by simp
      then show ?thesis by blast
    qed
  next
    assume "\<exists>pre suf. c # cs = pre @ needle @ suf"
    then obtain pre suf where eq: "c # cs = pre @ needle @ suf" by blast
    show "includes_str (c # cs) needle"
    proof (cases pre)
      case Nil
      then have "take (length needle) (c # cs) = needle" using eq by simp
      then show ?thesis by simp
    next
      case (Cons p ps)
      then have "cs = ps @ needle @ suf" using eq by simp
      then show ?thesis using Cons.IH by auto
    qed
  qed
qed

section \<open>The pattern match\<close>

lemma match_literal_iff:
  "match_literal lit s = Some rest \<longleftrightarrow> (\<exists>l. s = l @ rest \<and> same_ignoring_case l lit)"
proof (induction lit s rule: match_literal.induct)
  case (1 s)
  then show ?case by (auto simp: same_ignoring_case_def)
next
  case (2 p ps)
  then show ?case by (auto simp: same_ignoring_case_def)
next
  case (3 p ps c cs)
  show ?case
  proof (cases "canonicalize p = canonicalize c")
    case True
    have "(\<exists>l. c # cs = l @ rest \<and> same_ignoring_case l (p # ps))
            \<longleftrightarrow> (\<exists>l'. cs = l' @ rest \<and> same_ignoring_case l' ps)"
    proof
      assume "\<exists>l. c # cs = l @ rest \<and> same_ignoring_case l (p # ps)"
      then obtain l where l: "c # cs = l @ rest" "same_ignoring_case l (p # ps)" by blast
      then obtain x l' where "l = x # l'" by (cases l) (auto simp: same_ignoring_case_def)
      with l show "\<exists>l'. cs = l' @ rest \<and> same_ignoring_case l' ps"
        by (auto simp: same_ignoring_case_def)
    next
      assume "\<exists>l'. cs = l' @ rest \<and> same_ignoring_case l' ps"
      then obtain l' where "cs = l' @ rest" "same_ignoring_case l' ps" by blast
      with True have "c # cs = (c # l') @ rest \<and> same_ignoring_case (c # l') (p # ps)"
        by (simp add: same_ignoring_case_def)
      then show "\<exists>l. c # cs = l @ rest \<and> same_ignoring_case l (p # ps)" by blast
    qed
    with True 3 show ?thesis by simp
  next
    case False
    have "\<not> (\<exists>l. c # cs = l @ rest \<and> same_ignoring_case l (p # ps))"
    proof
      assume "\<exists>l. c # cs = l @ rest \<and> same_ignoring_case l (p # ps)"
      then obtain l where l: "c # cs = l @ rest" "same_ignoring_case l (p # ps)" by blast
      then obtain x l' where "l = x # l'" by (cases l) (auto simp: same_ignoring_case_def)
      with l False show False by (auto simp: same_ignoring_case_def)
    qed
    with False show ?thesis by simp
  qed
qed

lemma takeWhile_maximal:
  "\<forall>c\<in>set tok. P c \<Longrightarrow> suf = [] \<or> \<not> P (hd suf) \<Longrightarrow> takeWhile P (tok @ suf) = tok"
  by (cases suf) (auto simp: takeWhile_append)

lemma match_here_iff:
  "match_here lit s = Some tok \<longleftrightarrow>
     (\<exists>l suf. s = l @ tok @ suf \<and> same_ignoring_case l lit \<and> tok \<noteq> []
        \<and> (\<forall>c\<in>set tok. is_token_char c) \<and> (suf = [] \<or> \<not> is_token_char (hd suf)))"
proof
  assume "match_here lit s = Some tok"
  then obtain rest where rest: "match_literal lit s = Some rest"
    and tok: "tok = takeWhile is_token_char rest" "tok \<noteq> []"
    by (auto simp: match_here_def Let_def split: option.splits if_splits)
  from rest obtain l where l: "s = l @ rest" "same_ignoring_case l lit"
    using match_literal_iff by blast
  let ?suf = "dropWhile is_token_char rest"
  have "rest = tok @ ?suf" using tok by simp
  moreover have "\<forall>c\<in>set tok. is_token_char c" using tok by (auto dest: set_takeWhileD)
  moreover have "?suf = [] \<or> \<not> is_token_char (hd ?suf)" using hd_dropWhile by blast
  ultimately show "\<exists>l suf. s = l @ tok @ suf \<and> same_ignoring_case l lit \<and> tok \<noteq> []
        \<and> (\<forall>c\<in>set tok. is_token_char c) \<and> (suf = [] \<or> \<not> is_token_char (hd suf))"
    using l tok by blast
next
  assume "\<exists>l suf. s = l @ tok @ suf \<and> same_ignoring_case l lit \<and> tok \<noteq> []
        \<and> (\<forall>c\<in>set tok. is_token_char c) \<and> (suf = [] \<or> \<not> is_token_char (hd suf))"
  then obtain l suf where h: "s = l @ tok @ suf" "same_ignoring_case l lit" "tok \<noteq> []"
    "\<forall>c\<in>set tok. is_token_char c" "suf = [] \<or> \<not> is_token_char (hd suf)" by blast
  then have "match_literal lit s = Some (tok @ suf)" using match_literal_iff by blast
  moreover have "takeWhile is_token_char (tok @ suf) = tok"
    using h takeWhile_maximal by blast
  ultimately show "match_here lit s = Some tok" using h by (simp add: match_here_def)
qed

lemma match_here_None_iff:
  "match_here lit s = None \<longleftrightarrow>
     \<not> (\<exists>l tok suf. s = l @ tok @ suf \<and> same_ignoring_case l lit \<and> tok \<noteq> []
        \<and> (\<forall>c\<in>set tok. is_token_char c))"
proof
  assume none: "match_here lit s = None"
  show "\<not> (\<exists>l tok suf. s = l @ tok @ suf \<and> same_ignoring_case l lit \<and> tok \<noteq> []
        \<and> (\<forall>c\<in>set tok. is_token_char c))"
  proof
    assume "\<exists>l tok suf. s = l @ tok @ suf \<and> same_ignoring_case l lit \<and> tok \<noteq> []
        \<and> (\<forall>c\<in>set tok. is_token_char c)"
    then obtain l tok suf where h: "s = l @ tok @ suf" "same_ignoring_case l lit" "tok \<noteq> []"
      "\<forall>c\<in>set tok. is_token_char c" by blast
    then have "match_literal lit s = Some (tok @ suf)" using match_literal_iff by blast
    moreover have "takeWhile is_token_char (tok @ suf) \<noteq> []"
      using h by (cases tok) auto
    ultimately show False using none by (simp add: match_here_def Let_def)
  qed
next
  assume "\<not> (\<exists>l tok suf. s = l @ tok @ suf \<and> same_ignoring_case l lit \<and> tok \<noteq> []
        \<and> (\<forall>c\<in>set tok. is_token_char c))"
  then show "match_here lit s = None"
    using match_here_iff [of lit s] by (cases "match_here lit s") blast+
qed

lemma regex_match_Some:
  "regex_match lit s = Some tok \<Longrightarrow>
     \<exists>pre rest. s = pre @ rest \<and> match_here lit rest = Some tok
       \<and> (\<forall>pre' rest'. s = pre' @ rest' \<and> length pre' < length pre \<longrightarrow> match_here lit rest' = None)"
proof (induction s)
  case Nil
  then have "[] = [] @ [] \<and> match_here lit [] = Some tok" by simp
  then show ?case by fastforce
next
  case (Cons c cs)
  show ?case
  proof (cases "match_here lit (c # cs)")
    case (Some t)
    with Cons.prems have "c # cs = [] @ (c # cs) \<and> match_here lit (c # cs) = Some tok" by simp
    then show ?thesis by (metis length_0_conv less_nat_zero_code list.size(3))
  next
    case None
    with Cons.prems have "regex_match lit cs = Some tok" by simp
    then obtain pre rest where pr: "cs = pre @ rest" "match_here lit rest = Some tok"
      "\<forall>pre' rest'. cs = pre' @ rest' \<and> length pre' < length pre \<longrightarrow> match_here lit rest' = None"
      using Cons.IH by blast
    have "\<forall>pre' rest'. c # cs = pre' @ rest' \<and> length pre' < length (c # pre)
            \<longrightarrow> match_here lit rest' = None"
    proof (intro allI impI)
      fix pre' rest'
      assume a: "c # cs = pre' @ rest' \<and> length pre' < length (c # pre)"
      show "match_here lit rest' = None"
      proof (cases pre')
        case Nil
        with a None show ?thesis by simp
      next
        case (Cons x xs)
        with a have "cs = xs @ rest' \<and> length xs < length pre" by simp
        with pr show ?thesis by blast
      qed
    qed
    moreover have "c # cs = (c # pre) @ rest" using pr by simp
    ultimately show ?thesis using pr by blast
  qed
qed

lemma regex_match_None:
  "regex_match lit s = None \<Longrightarrow> \<forall>pre rest. s = pre @ rest \<longrightarrow> match_here lit rest = None"
proof (induction s)
  case Nil
  then show ?case by simp
next
  case (Cons c cs)
  then have here: "match_here lit (c # cs) = None" and tl: "regex_match lit cs = None"
    by (auto split: option.splits)
  show ?case
  proof (intro allI impI)
    fix pre rest
    assume eq: "c # cs = pre @ rest"
    show "match_here lit rest = None"
    proof (cases pre)
      case Nil
      with eq here show ?thesis by simp
    next
      case (Cons x xs)
      with eq have "cs = xs @ rest" by simp
      with tl Cons.IH show ?thesis by blast
    qed
  qed
qed

lemma match_literal_cong:
  assumes "same_ignoring_case a b"
  shows "match_literal a s = match_literal b s"
proof -
  have ab: "same_ignoring_case l a \<longleftrightarrow> same_ignoring_case l b" for l
    using assms unfolding same_ignoring_case_def by simp
  have "match_literal a s = Some r \<longleftrightarrow> match_literal b s = Some r" for r
    unfolding match_literal_iff ab ..
  then show ?thesis by (metis option.exhaust)
qed

lemma match_here_cong:
  "same_ignoring_case a b \<Longrightarrow> match_here a s = match_here b s"
  unfolding match_here_def using match_literal_cong [of a b s] by simp

lemma regex_match_cong:
  assumes "same_ignoring_case a b"
  shows "regex_match a s = regex_match b s"
proof (induction s)
  case Nil
  show ?case using match_here_cong [OF assms] by simp
next
  case (Cons c cs)
  then show ?case using match_here_cong [OF assms, of "c # cs"]
    by (simp split: option.splits)
qed

lemma second_pattern_same: "regex_match ''Build ID: '' out = regex_match ''build ID: '' out"
proof (rule regex_match_cong)
  show "same_ignoring_case ''Build ID: '' ''build ID: ''" by code_simp
qed

lemma extract_build_id_eq:
  "extract_build_id out = (case regex_match ''build ID: '' out of Some m \<Rightarrow> m | None \<Rightarrow> ''unknown'')"
  by (simp add: extract_build_id_def second_pattern_same split: option.splits)

section \<open>What every state of the process satisfies\<close>

lemma regex_match_token:
  assumes "regex_match lit s = Some tok"
  shows "tok \<noteq> [] \<and> (\<forall>c\<in>set tok. is_token_char c)"
proof -
  from assms obtain rest where "match_here lit rest = Some tok"
    using regex_match_Some by blast
  then show ?thesis unfolding match_here_iff by blast
qed

lemma extract_build_id_shape: "build_id_shape (extract_build_id out)"
proof (cases "regex_match ''build ID: '' out")
  case None
  then show ?thesis by (simp add: extract_build_id_eq build_id_shape_def)
next
  case (Some tok)
  then show ?thesis
    using regex_match_token [OF Some] by (simp add: extract_build_id_eq build_id_shape_def)
qed

lemma falsy_iff: "falsy x \<longleftrightarrow> x = None \<or> x = Some []"
  by (cases x) (simp_all add: falsy_def)

lemma register_device_inv: "state_inv s \<Longrightarrow> state_inv (post (register_device e s req))"
  by (auto simp: register_device_def state_inv_def falsy_iff Let_def split: exec_result.splits)

lemma trigger_build_inv: "state_inv s \<Longrightarrow> state_inv (post (trigger_build e s req))"
  using extract_build_id_shape
  by (cases "t_udid req")
     (auto simp: trigger_build_def state_inv_def falsy_def Let_def
           split: exec_result.splits option.splits)

lemma build_status_post: "post (build_status s u) = s"
  by (simp add: build_status_def split: option.splits)

lemma step_inv: "state_inv s \<Longrightarrow> state_inv (step s op)"
  by (cases op) (simp_all add: step_def register_device_inv trigger_build_inv build_status_post)

lemma register_device_phases:
  "register_device e s req =
     (case register_until_await e s req of
        Inl r \<Rightarrow> \<lparr>resp = r, post = s, calls = []\<rparr>
      | Inr (u, c) \<Rightarrow> register_after_await s u c (execAsync e c))"
  by (simp add: register_device_def register_until_await_def register_after_await_def Let_def)

lemma trigger_build_phases:
  "trigger_build e s req =
     (case trigger_until_await e s req of
        Inl r \<Rightarrow> \<lparr>resp = r, post = s, calls = []\<rparr>
      | Inr (u, c) \<Rightarrow> trigger_after_await (nowISO e) s u c (execAsync e c))"
  by (simp add: trigger_build_def trigger_until_await_def trigger_after_await_def Let_def
           split: option.splits)


lemma proc_step_inv:
  assumes "proc_step p q" and "state_inv (store p)" and "\<forall>a\<in>set (suspended p). awaited_udid a \<noteq> []"
  shows "state_inv (store q) \<and> (\<forall>a\<in>set (suspended q). awaited_udid a \<noteq> [])"
  using assms(1)
proof (cases rule: proc_step.cases)
  case (suspend_register e req u c)
  then have "u \<noteq> []"
    by (cases "udid req")
       (auto simp: register_until_await_def falsy_def Let_def split: if_splits)
  with suspend_register assms show ?thesis by auto
next
  case (resume_register u c result)
  then have "u \<noteq> []" using assms(3) by force
  moreover have "set (remove1 (AwaitRegister u c) (suspended p)) \<subseteq> set (suspended p)"
    by (rule set_remove1_subset)
  ultimately show ?thesis using resume_register assms(2,3)
    by (auto simp: register_after_await_def state_inv_def split: exec_result.splits)
next
  case (suspend_build e req u c)
  then have "u \<noteq> []"
    by (cases "t_udid req")
       (auto simp: trigger_until_await_def falsy_def Let_def split: if_splits option.splits)
  with suspend_build assms show ?thesis by auto
next
  case (resume_build u c now result)
  then have "u \<noteq> []" using assms(3) by force
  moreover have "set (remove1 (AwaitBuild u c) (suspended p)) \<subseteq> set (suspended p)"
    by (rule set_remove1_subset)
  ultimately show ?thesis using resume_build assms(2,3) extract_build_id_shape
    by (auto simp: trigger_after_await_def state_inv_def Let_def split: exec_result.splits)
qed

lemma proc_reachable_inv:
  "proc_reachable p \<Longrightarrow>
     state_inv (store p) \<and> (\<forall>a\<in>set (suspended p). awaited_udid a \<noteq> [])"
proof (induction rule: proc_reachable.induct)
  case proc_init
  show ?case by (simp add: init_process_def init_state_def state_inv_def)
next
  case (proc_next p q)
  then show ?case using proc_step_inv by blast
qed

lemma step_reachable:
  assumes "proc_reachable \<lparr>store = s, suspended = []\<rparr>"
  shows "proc_reachable \<lparr>store = step s op, suspended = []\<rparr>"
proof -
  let ?p = "\<lparr>store = s, suspended = []\<rparr>"
  show ?thesis
  proof (cases op)
    case (Register e req)
    show ?thesis
    proof (cases "register_until_await e s req")
      case (Inl r)
      then have "step s op = s" using Register by (simp add: step_def register_device_phases)
      with assms show ?thesis by simp
    next
      case (Inr uc)
      obtain u c where uc: "uc = (u, c)" by (cases uc)
      have "register_until_await e (store ?p) req = Inr (u, c)" using Inr uc by simp
      then have "proc_step ?p (?p\<lparr>suspended := AwaitRegister u c # suspended ?p\<rparr>)"
        by (rule suspend_register)
      then have a: "proc_reachable \<lparr>store = s, suspended = [AwaitRegister u c]\<rparr>"
        using assms proc_next by fastforce
      have "proc_step \<lparr>store = s, suspended = [AwaitRegister u c]\<rparr>
              \<lparr>store = post (register_after_await
                               (store \<lparr>store = s, suspended = [AwaitRegister u c]\<rparr>) u c (execAsync e c)),
               suspended = remove1 (AwaitRegister u c)
                             (suspended \<lparr>store = s, suspended = [AwaitRegister u c]\<rparr>)\<rparr>"
        by (rule resume_register) simp
      moreover have "step s op = post (register_after_await s u c (execAsync e c))"
        using Register Inr uc by (simp add: step_def register_device_phases)
      ultimately show ?thesis using a proc_next by fastforce
    qed
  next
    case (TriggerBuild e req)
    show ?thesis
    proof (cases "trigger_until_await e s req")
      case (Inl r)
      then have "step s op = s" using TriggerBuild by (simp add: step_def trigger_build_phases)
      with assms show ?thesis by simp
    next
      case (Inr uc)
      obtain u c where uc: "uc = (u, c)" by (cases uc)
      have "trigger_until_await e (store ?p) req = Inr (u, c)" using Inr uc by simp
      then have "proc_step ?p (?p\<lparr>suspended := AwaitBuild u c # suspended ?p\<rparr>)"
        by (rule suspend_build)
      then have a: "proc_reachable \<lparr>store = s, suspended = [AwaitBuild u c]\<rparr>"
        using assms proc_next by fastforce
      have "proc_step \<lparr>store = s, suspended = [AwaitBuild u c]\<rparr>
              \<lparr>store = post (trigger_after_await (nowISO e)
                               (store \<lparr>store = s, suspended = [AwaitBuild u c]\<rparr>) u c (execAsync e c)),
               suspended = remove1 (AwaitBuild u c)
                             (suspended \<lparr>store = s, suspended = [AwaitBuild u c]\<rparr>)\<rparr>"
        by (rule resume_build) simp
      moreover have "step s op = post (trigger_after_await (nowISO e) s u c (execAsync e c))"
        using TriggerBuild Inr uc by (simp add: step_def trigger_build_phases)
      ultimately show ?thesis using a proc_next by fastforce
    qed
  next
    case (GetStatus u)
    then have "step s op = s" by (simp add: step_def build_status_def split: option.splits)
    with assms show ?thesis by simp
  qed
qed

lemma run_reachable:
  "proc_reachable \<lparr>store = s, suspended = []\<rparr> \<Longrightarrow>
     proc_reachable \<lparr>store = run s ops, suspended = []\<rparr>"
proof (induction ops arbitrary: s)
  case Nil
  then show ?case by (simp add: run_def)
next
  case (Cons op ops)
  from Cons.prems have "proc_reachable \<lparr>store = step s op, suspended = []\<rparr>"
    by (rule step_reachable)
  then have "proc_reachable \<lparr>store = run (step s op) ops, suspended = []\<rparr>"
    by (rule Cons.IH)
  then show ?case by (simp add: run_def)
qed

lemma init_reachable: "proc_reachable \<lparr>store = init_state, suspended = []\<rparr>"
  using proc_init by (simp add: init_process_def)


lemma step_registered_mono: "registeredDevices s \<subseteq> registeredDevices (step s op)"
proof (cases op)
  case (Register e req)
  then show ?thesis
    by (auto simp: step_def register_device_def Let_def split: exec_result.splits)
next
  case (TriggerBuild e req)
  then show ?thesis
    by (auto simp: step_def trigger_build_def Let_def split: exec_result.splits option.splits)
next
  case (GetStatus u)
  then show ?thesis by (simp add: step_def build_status_def split: option.splits)
qed

lemma step_pending_kept:
  assumes "pendingBuilds s u = Some b"
  shows "pendingBuilds (step s op) u = Some b"
proof (cases op)
  case (Register e req)
  then show ?thesis using assms
    by (auto simp: step_def register_device_def Let_def split: exec_result.splits)
next
  case (TriggerBuild e req)
  then show ?thesis using assms
    by (auto simp: step_def trigger_build_def Let_def split: exec_result.splits option.splits)
next
  case (GetStatus u)
  then show ?thesis using assms by (simp add: step_def build_status_def split: option.splits)
qed


lemma run_monotonic:
  "registeredDevices s \<subseteq> registeredDevices (run s ops)
   \<and> (\<forall>u b. pendingBuilds s u = Some b \<longrightarrow> pendingBuilds (run s ops) u = Some b)"
proof (induction ops arbitrary: s)
  case Nil
  show ?case by (simp add: run_def)
next
  case (Cons op ops)
  have r: "run s (op # ops) = run (step s op) ops" by (simp add: run_def)
  from Cons [of "step s op"] step_registered_mono [of s op] step_pending_kept [of s _ _ op]
  show ?case unfolding r by blast
qed

section \<open>Registration\<close>

text \<open>
  Claim C1. In every state the process can be in, registering an identifier that is
  already a member of \<open>registeredDevices\<close> answers 200 with \<open>success: true\<close> and
  \<open>alreadyRegistered: true\<close>, leaves the state as it is and calls no subprocess. Hence,
  when a call for an identifier has reported success, a second call for the same
  identifier, at once or after any further operations, gives that answer, again without a
  subprocess call.
\<close>

theorem register_already_registered:
  assumes "proc_reachable p"
  shows "(u \<in> registeredDevices (store p) \<longrightarrow>
            register_device e (store p) \<lparr>udid = Some u, deviceName = dn\<rparr> =
              \<lparr>resp = \<lparr>statusCode = 200,
                        body = [(''success'', JBool True), (''message'', JStr msg_ja_registrado),
                                (''alreadyRegistered'', JBool True), (''udid'', JStr u)]\<rparr>,
               post = store p, calls = []\<rparr>)
       \<and> (map_of (body (resp (register_device e (store p) \<lparr>udid = Some u, deviceName = dn\<rparr>)))
              ''success'' = Some (JBool True) \<longrightarrow>
            register_device e'
                (run (post (register_device e (store p) \<lparr>udid = Some u, deviceName = dn\<rparr>)) ops)
                \<lparr>udid = Some u, deviceName = dn'\<rparr> =
              \<lparr>resp = \<lparr>statusCode = 200,
                        body = [(''success'', JBool True), (''message'', JStr msg_ja_registrado),
                                (''alreadyRegistered'', JBool True), (''udid'', JStr u)]\<rparr>,
               post = run (post (register_device e (store p) \<lparr>udid = Some u, deviceName = dn\<rparr>)) ops,
               calls = []\<rparr>)"
proof -
  have inv: "[] \<notin> registeredDevices (store p)"
    using assms proc_reachable_inv state_inv_def by blast
  have member: "register_device e2 t \<lparr>udid = Some u, deviceName = d\<rparr> =
              \<lparr>resp = \<lparr>statusCode = 200,
                        body = [(''success'', JBool True), (''message'', JStr msg_ja_registrado),
                                (''alreadyRegistered'', JBool True), (''udid'', JStr u)]\<rparr>,
               post = t, calls = []\<rparr>"
    if "u \<in> registeredDevices t" "u \<noteq> []" for e2 t d
    using that by (simp add: register_device_def falsy_def json_def)
  have first: "u \<in> registeredDevices (store p) \<longrightarrow>
            register_device e (store p) \<lparr>udid = Some u, deviceName = dn\<rparr> =
              \<lparr>resp = \<lparr>statusCode = 200,
                        body = [(''success'', JBool True), (''message'', JStr msg_ja_registrado),
                                (''alreadyRegistered'', JBool True), (''udid'', JStr u)]\<rparr>,
               post = store p, calls = []\<rparr>"
    using inv member by blast
  let ?o = "register_device e (store p) \<lparr>udid = Some u, deviceName = dn\<rparr>"
  have "u \<in> registeredDevices (post ?o) \<and> u \<noteq> []"
    if "map_of (body (resp ?o)) ''success'' = Some (JBool True)"
    using that
    by (auto simp: register_device_def falsy_def json_def status_json_def Let_def
             split: exec_result.splits if_splits)
  then have "u \<in> registeredDevices (run (post ?o) ops) \<and> u \<noteq> []"
    if "map_of (body (resp ?o)) ''success'' = Some (JBool True)"
    using that run_monotonic [of "post ?o" ops] by blast
  then show ?thesis using first member by blast
qed

theorem register_already_registered_witness:
  "proc_reachable \<lparr>store = init_state, suspended = []\<rparr>
   \<and> map_of (body (resp (register_device (tool_prints ''Device registered successfully'') init_state
                              \<lparr>udid = Some ''ABCD1234'', deviceName = None\<rparr>))) ''success''
       = Some (JBool True)
   \<and> ''ABCD1234'' \<in> registeredDevices
         (post (register_device (tool_prints ''Device registered successfully'') init_state
                  \<lparr>udid = Some ''ABCD1234'', deviceName = None\<rparr>))
   \<and> calls (register_device (tool_fails ''down'')
         (post (register_device (tool_prints ''Device registered successfully'') init_state
                  \<lparr>udid = Some ''ABCD1234'', deviceName = None\<rparr>))
         \<lparr>udid = Some ''ABCD1234'', deviceName = None\<rparr>) = []
   \<and> map_of (body (resp (register_device (tool_fails ''down'')
         (post (register_device (tool_prints ''Device registered successfully'') init_state
                  \<lparr>udid = Some ''ABCD1234'', deviceName = None\<rparr>))
         \<lparr>udid = Some ''ABCD1234'', deviceName = None\<rparr>))) ''alreadyRegistered''
       = Some (JBool True)"
proof -
  let ?e = "tool_prints ''Device registered successfully''"
  let ?req = "\<lparr>udid = Some ''ABCD1234'', deviceName = None\<rparr>"
  let ?s1 = "post (register_device ?e init_state ?req)"
  have r0: "proc_reachable \<lparr>store = init_state, suspended = []\<rparr>" by (rule init_reachable)
  have ok: "map_of (body (resp (register_device ?e init_state ?req))) ''success'' = Some (JBool True)"
    by (simp add: register_device_def falsy_def init_state_def tool_prints_def json_def Let_def)
  have mem: "''ABCD1234'' \<in> registeredDevices ?s1"
    by (simp add: register_device_def falsy_def init_state_def tool_prints_def json_def Let_def)
  have r1: "proc_reachable \<lparr>store = ?s1, suspended = []\<rparr>"
    using step_reachable [OF r0, of "Register ?e ?req"] by (simp add: step_def)
  note first = register_already_registered [OF r1, of "''ABCD1234''" "tool_fails ''down''" None]
  note second = register_already_registered
                  [OF r0, of "''ABCD1234''" ?e None "tool_fails ''down''" "[]" None]
  from first mem second ok r0 show ?thesis by (simp add: run_def)
qed

text \<open>
  Claim C4. A register or trigger request whose \<open>udid\<close> field is absent or the empty
  string is answered with status 400 and the validation error; no subprocess is called and
  neither container changes.
\<close>

theorem missing_udid_rejected:
  "(udid req = None \<or> udid req = Some [] \<longrightarrow>
      register_device e s req =
        \<lparr>resp = \<lparr>statusCode = 400,
                  body = [(''success'', JBool False), (''error'', JStr msg_udid_obrigatorio)]\<rparr>,
         post = s, calls = []\<rparr>)
   \<and> (t_udid treq = None \<or> t_udid treq = Some [] \<longrightarrow>
      trigger_build e s treq =
        \<lparr>resp = \<lparr>statusCode = 400,
                  body = [(''success'', JBool False), (''error'', JStr msg_udid_obrigatorio)]\<rparr>,
         post = s, calls = []\<rparr>)"
  by (auto simp: register_device_def trigger_build_def falsy_def status_json_def)

theorem missing_udid_rejected_witness:
  "register_device (tool_prints ''ok'') init_state \<lparr>udid = None, deviceName = Some ''Ana''\<rparr> =
        \<lparr>resp = \<lparr>statusCode = 400,
                  body = [(''success'', JBool False), (''error'', JStr msg_udid_obrigatorio)]\<rparr>,
         post = init_state, calls = []\<rparr>
   \<and> trigger_build (tool_prints ''ok'') init_state \<lparr>t_udid = Some []\<rparr> =
        \<lparr>resp = \<lparr>statusCode = 400,
                  body = [(''success'', JBool False), (''error'', JStr msg_udid_obrigatorio)]\<rparr>,
         post = init_state, calls = []\<rparr>"
  using missing_udid_rejected
          [of "\<lparr>udid = None, deviceName = Some ''Ana''\<rparr>" "tool_prints ''ok''" init_state
              "\<lparr>t_udid = Some []\<rparr>"]
  by simp

text \<open>
  Claim C5. When the registration subprocess fails and the message of the failure contains
  \<open>already registered\<close> or \<open>already exists\<close>, the handler answers 200 with
  \<open>alreadyRegistered: true\<close> and adds the identifier to \<open>registeredDevices\<close>; for every
  other message it answers 500 with the tool's message and standard error, and the state
  stays as it was.
\<close>

theorem already_known_to_tool_absorbed:
  assumes "udid req = Some u" and "u \<noteq> []" and "u \<notin> registeredDevices s"
    and "execAsync e (register_call (appDir e) u (deviceNameSafe (deviceName req) u)) = Rejected msg err"
  shows "(has_substring msg ''already registered'' \<or> has_substring msg ''already exists'' \<longrightarrow>
            register_device e s req =
              \<lparr>resp = \<lparr>statusCode = 200,
                        body = [(''success'', JBool True), (''message'', JStr msg_ja_estava_registrado),
                                (''udid'', JStr u), (''alreadyRegistered'', JBool True)]\<rparr>,
               post = s\<lparr>registeredDevices := insert u (registeredDevices s)\<rparr>,
               calls = [register_call (appDir e) u (deviceNameSafe (deviceName req) u)]\<rparr>)
       \<and> (\<not> has_substring msg ''already registered'' \<and> \<not> has_substring msg ''already exists'' \<longrightarrow>
            register_device e s req =
              \<lparr>resp = \<lparr>statusCode = 500,
                        body = [(''success'', JBool False), (''error'', JStr ''Erro ao registrar dispositivo''),
                                (''details'', JStr msg), (''stderr'', JStr err)]\<rparr>,
               post = s,
               calls = [register_call (appDir e) u (deviceNameSafe (deviceName req) u)]\<rparr>)"
  using assms
  by (simp add: register_device_def falsy_def json_def status_json_def Let_def includes_str_iff)

theorem already_known_to_tool_absorbed_witness:
  "has_substring ''Error: device already exists in account'' ''already exists''
   \<and> register_device (tool_fails ''Error: device already exists in account'') init_state
         \<lparr>udid = Some ''ABCD1234'', deviceName = Some ''Ana''\<rparr> =
              \<lparr>resp = \<lparr>statusCode = 200,
                        body = [(''success'', JBool True), (''message'', JStr msg_ja_estava_registrado),
                                (''udid'', JStr ''ABCD1234''), (''alreadyRegistered'', JBool True)]\<rparr>,
               post = init_state\<lparr>registeredDevices := {''ABCD1234''}\<rparr>,
               calls = [register_call ''/srv/app'' ''ABCD1234'' ''Ana'']\<rparr>
   \<and> \<not> has_substring ''Error: Already Registered'' ''already registered''
   \<and> \<not> has_substring ''Error: Already Registered'' ''already exists''
   \<and> statusCode (resp (register_device (tool_fails ''Error: Already Registered'') init_state
         \<lparr>udid = Some ''ABCD1234'', deviceName = Some ''Ana''\<rparr>)) = 500"
proof -
  let ?req = "\<lparr>udid = Some ''ABCD1234'', deviceName = Some ''Ana''\<rparr>"
  let ?m1 = "''Error: device already exists in account''"
  let ?m2 = "''Error: Already Registered''"
  have y: "has_substring ?m1 ''already exists''"
    unfolding includes_str_iff [symmetric] by simp
  have n1: "\<not> has_substring ?m2 ''already registered''"
    unfolding includes_str_iff [symmetric] by simp
  have n2: "\<not> has_substring ?m2 ''already exists''"
    unfolding includes_str_iff [symmetric] by simp
  have name: "deviceNameSafe (Some ''Ana'') ''ABCD1234'' = ''Ana''"
    by (simp add: deviceNameSafe_def falsy_def)
  have pre: "udid ?req = Some ''ABCD1234''" "''ABCD1234'' \<noteq> []"
    "''ABCD1234'' \<notin> registeredDevices init_state"
    by (simp_all add: init_state_def)
  have x1: "execAsync (tool_fails ?m1)
              (register_call (appDir (tool_fails ?m1)) ''ABCD1234'' (deviceNameSafe (deviceName ?req) ''ABCD1234''))
            = Rejected ?m1 ''boom''"
    by (simp add: tool_fails_def)
  have x2: "execAsync (tool_fails ?m2)
              (register_call (appDir (tool_fails ?m2)) ''ABCD1234'' (deviceNameSafe (deviceName ?req) ''ABCD1234''))
            = Rejected ?m2 ''boom''"
    by (simp add: tool_fails_def)
  have a: "register_device (tool_fails ?m1) init_state ?req =
              \<lparr>resp = \<lparr>statusCode = 200,
                        body = [(''success'', JBool True), (''message'', JStr msg_ja_estava_registrado),
                                (''udid'', JStr ''ABCD1234''), (''alreadyRegistered'', JBool True)]\<rparr>,
               post = init_state\<lparr>registeredDevices := {''ABCD1234''}\<rparr>,
               calls = [register_call ''/srv/app'' ''ABCD1234'' ''Ana'']\<rparr>"
    using already_known_to_tool_absorbed [OF pre x1] y name
    by (simp add: tool_fails_def init_state_def)
  have b: "statusCode (resp (register_device (tool_fails ?m2) init_state ?req)) = 500"
    using already_known_to_tool_absorbed [OF pre x2] n1 n2 by simp
  from y a n1 n2 b show ?thesis by blast
qed

section \<open>Build trigger\<close>

lemma trigger_build_existing:
  assumes "pendingBuilds s u = Some b" and "u \<noteq> []"
  shows "trigger_build e s \<lparr>t_udid = Some u\<rparr> =
           \<lparr>resp = \<lparr>statusCode = 200,
                     body = [(''success'', JBool True), (''message'', JStr msg_build_em_andamento),
                             (''buildId'', JStr (buildId b)), (''status'', JStr (status b))]\<rparr>,
            post = s, calls = []\<rparr>"
  using assms by (simp add: trigger_build_def falsy_def json_def)

text \<open>
  Claim C2. In every state the process can be in, a trigger for an identifier that has an
  entry in \<open>pendingBuilds\<close> answers 200 with the \<open>buildId\<close> and \<open>status\<close> of that
  entry and the message that a build is already running, calls no subprocess and leaves
  the state as it is; so does any number of further triggers for it. The table is a map,
  which holds one object per key.
\<close>

theorem trigger_build_already_pending:
  assumes "proc_reachable p" and "pendingBuilds (store p) u = Some b"
  shows "trigger_build e (store p) \<lparr>t_udid = Some u\<rparr> =
           \<lparr>resp = \<lparr>statusCode = 200,
                     body = [(''success'', JBool True), (''message'', JStr msg_build_em_andamento),
                             (''buildId'', JStr (buildId b)), (''status'', JStr (status b))]\<rparr>,
            post = store p, calls = []\<rparr>
       \<and> run (store p) (map (\<lambda>e. TriggerBuild e \<lparr>t_udid = Some u\<rparr>) es) = store p"
proof -
  have ne: "u \<noteq> []"
    using assms proc_reachable_inv [of p] unfolding state_inv_def by auto
  have "run (store p) (map (\<lambda>e. TriggerBuild e \<lparr>t_udid = Some u\<rparr>) es) = store p"
  proof (induction es)
    case Nil
    show ?case by (simp add: run_def)
  next
    case (Cons e' es)
    have "step (store p) (TriggerBuild e' \<lparr>t_udid = Some u\<rparr>) = store p"
      using trigger_build_existing [OF assms(2) ne] by (simp add: step_def)
    with Cons show ?case by (simp add: run_def)
  qed
  with trigger_build_existing [OF assms(2) ne] show ?thesis by simp
qed

theorem trigger_build_already_pending_witness:
  "proc_reachable
     \<lparr>store = step init_state (TriggerBuild (tool_prints ''Build ID: 7f3a-22'') \<lparr>t_udid = Some ''X''\<rparr>),
      suspended = []\<rparr>
   \<and> pendingBuilds (step init_state (TriggerBuild (tool_prints ''Build ID: 7f3a-22'') \<lparr>t_udid = Some ''X''\<rparr>)) ''X''
       = Some \<lparr>buildId = ''7f3a-22'', status = ''pending'', startedAt = ''2024-05-01T10:00:00.000Z''\<rparr>
   \<and> trigger_build (tool_prints ''Build ID: 9999'')
         (step init_state (TriggerBuild (tool_prints ''Build ID: 7f3a-22'') \<lparr>t_udid = Some ''X''\<rparr>))
         \<lparr>t_udid = Some ''X''\<rparr> =
           \<lparr>resp = \<lparr>statusCode = 200,
                     body = [(''success'', JBool True), (''message'', JStr msg_build_em_andamento),
                             (''buildId'', JStr ''7f3a-22''), (''status'', JStr ''pending'')]\<rparr>,
            post = step init_state (TriggerBuild (tool_prints ''Build ID: 7f3a-22'') \<lparr>t_udid = Some ''X''\<rparr>),
            calls = []\<rparr>"
proof -
  let ?s1 = "step init_state (TriggerBuild (tool_prints ''Build ID: 7f3a-22'') \<lparr>t_udid = Some ''X''\<rparr>)"
  have r: "proc_reachable \<lparr>store = ?s1, suspended = []\<rparr>"
    by (rule step_reachable [OF init_reachable])
  have ex: "extract_build_id ''Build ID: 7f3a-22'' = ''7f3a-22''" by code_simp
  have p: "pendingBuilds (store \<lparr>store = ?s1, suspended = []\<rparr>) ''X''
       = Some \<lparr>buildId = ''7f3a-22'', status = ''pending'', startedAt = ''2024-05-01T10:00:00.000Z''\<rparr>"
    by (simp add: step_def trigger_build_def falsy_def init_state_def tool_prints_def Let_def ex)
  from trigger_build_already_pending [OF r p, of "tool_prints ''Build ID: 9999''" "[]"] r p
  show ?thesis by simp
qed

section \<open>Failure of the external tool\<close>

text \<open>
  Claim C3. When the subprocess fails and the failure is not taken for an earlier
  registration, the register handler answers 500 with the tool's message and standard
  error and does not add the identifier; when the subprocess of the trigger handler
  fails, it answers 500 and stores no build object. Whenever either handler answers with
  a status other than 200 the state is the one before the call, and after a 500 a retry
  reaches the subprocess again.
\<close>

theorem tool_failure_keeps_state:
  "(udid req = Some u \<and> u \<noteq> [] \<and> u \<notin> registeredDevices s
      \<and> execAsync e (register_call (appDir e) u (deviceNameSafe (deviceName req) u)) = Rejected msg err
      \<and> \<not> has_substring msg ''already registered'' \<and> \<not> has_substring msg ''already exists''
    \<longrightarrow> register_device e s req =
          \<lparr>resp = \<lparr>statusCode = 500,
                    body = [(''success'', JBool False), (''error'', JStr ''Erro ao registrar dispositivo''),
                            (''details'', JStr msg), (''stderr'', JStr err)]\<rparr>,
           post = s,
           calls = [register_call (appDir e) u (deviceNameSafe (deviceName req) u)]\<rparr>)
   \<and> (t_udid treq = Some u \<and> u \<noteq> [] \<and> pendingBuilds s u = None
      \<and> execAsync e (build_call (appDir e)) = Rejected msg err
    \<longrightarrow> trigger_build e s treq =
          \<lparr>resp = \<lparr>statusCode = 500,
                    body = [(''success'', JBool False), (''error'', JStr ''Erro ao disparar build''),
                            (''details'', JStr msg), (''stderr'', JStr err)]\<rparr>,
           post = s, calls = [build_call (appDir e)]\<rparr>)
   \<and> (statusCode (resp (register_device e s req)) \<noteq> 200 \<longrightarrow> post (register_device e s req) = s)
   \<and> (statusCode (resp (trigger_build e s treq)) \<noteq> 200 \<longrightarrow> post (trigger_build e s treq) = s)
   \<and> (statusCode (resp (register_device e s req)) = 500 \<longrightarrow>
        calls (register_device e' (post (register_device e s req)) req) \<noteq> [])
   \<and> (statusCode (resp (trigger_build e s treq)) = 500 \<longrightarrow>
        calls (trigger_build e' (post (trigger_build e s treq)) treq) \<noteq> [])"
proof (intro conjI impI)
  assume a: "udid req = Some u \<and> u \<noteq> [] \<and> u \<notin> registeredDevices s
      \<and> execAsync e (register_call (appDir e) u (deviceNameSafe (deviceName req) u)) = Rejected msg err
      \<and> \<not> has_substring msg ''already registered'' \<and> \<not> has_substring msg ''already exists''"
  then show "register_device e s req =
          \<lparr>resp = \<lparr>statusCode = 500,
                    body = [(''success'', JBool False), (''error'', JStr ''Erro ao registrar dispositivo''),
                            (''details'', JStr msg), (''stderr'', JStr err)]\<rparr>,
           post = s,
           calls = [register_call (appDir e) u (deviceNameSafe (deviceName req) u)]\<rparr>"
    by (simp add: register_device_def falsy_def status_json_def Let_def includes_str_iff)
next
  assume "t_udid treq = Some u \<and> u \<noteq> [] \<and> pendingBuilds s u = None
      \<and> execAsync e (build_call (appDir e)) = Rejected msg err"
  then show "trigger_build e s treq =
          \<lparr>resp = \<lparr>statusCode = 500,
                    body = [(''success'', JBool False), (''error'', JStr ''Erro ao disparar build''),
                            (''details'', JStr msg), (''stderr'', JStr err)]\<rparr>,
           post = s, calls = [build_call (appDir e)]\<rparr>"
    by (simp add: trigger_build_def falsy_def status_json_def Let_def)
next
  assume "statusCode (resp (register_device e s req)) \<noteq> 200"
  then show "post (register_device e s req) = s"
    by (auto simp: register_device_def json_def status_json_def Let_def
             split: if_splits exec_result.splits)
next
  assume "statusCode (resp (trigger_build e s treq)) \<noteq> 200"
  then show "post (trigger_build e s treq) = s"
    by (auto simp: trigger_build_def json_def status_json_def Let_def
             split: if_splits exec_result.splits option.splits)
next
  assume a: "statusCode (resp (register_device e s req)) = 500"
  then have same: "post (register_device e s req) = s"
    by (auto simp: register_device_def json_def status_json_def Let_def
             split: if_splits exec_result.splits)
  from a have "\<not> falsy (udid req) \<and> the (udid req) \<notin> registeredDevices s"
    by (auto simp: register_device_def json_def status_json_def Let_def split: if_splits)
  then show "calls (register_device e' (post (register_device e s req)) req) \<noteq> []"
    unfolding same
    by (auto simp: register_device_def Let_def split: exec_result.splits)
next
  assume a: "statusCode (resp (trigger_build e s treq)) = 500"
  then have same: "post (trigger_build e s treq) = s"
    by (auto simp: trigger_build_def json_def status_json_def Let_def
             split: if_splits exec_result.splits option.splits)
  from a have "\<not> falsy (t_udid treq) \<and> pendingBuilds s (the (t_udid treq)) = None"
    by (auto simp: trigger_build_def json_def status_json_def Let_def
             split: if_splits option.splits)
  then show "calls (trigger_build e' (post (trigger_build e s treq)) treq) \<noteq> []"
    unfolding same
    by (auto simp: trigger_build_def Let_def split: exec_result.splits)
qed

theorem tool_failure_keeps_state_witness:
  "\<not> has_substring ''network down'' ''already registered''
   \<and> \<not> has_substring ''network down'' ''already exists''
   \<and> register_device (tool_fails ''network down'') init_state
         \<lparr>udid = Some ''ABCD1234'', deviceName = None\<rparr> =
          \<lparr>resp = \<lparr>statusCode = 500,
                    body = [(''success'', JBool False), (''error'', JStr ''Erro ao registrar dispositivo''),
                            (''details'', JStr ''network down''), (''stderr'', JStr ''boom'')]\<rparr>,
           post = init_state,
           calls = [register_call ''/srv/app'' ''ABCD1234'' ''iPhone-ABCD1234'']\<rparr>
   \<and> trigger_build (tool_fails ''network down'') init_state \<lparr>t_udid = Some ''ABCD1234''\<rparr> =
          \<lparr>resp = \<lparr>statusCode = 500,
                    body = [(''success'', JBool False), (''error'', JStr ''Erro ao disparar build''),
                            (''details'', JStr ''network down''), (''stderr'', JStr ''boom'')]\<rparr>,
           post = init_state, calls = [build_call ''/srv/app'']\<rparr>
   \<and> calls (register_device (tool_prints ''ok'')
               (post (register_device (tool_fails ''network down'') init_state
                        \<lparr>udid = Some ''ABCD1234'', deviceName = None\<rparr>))
               \<lparr>udid = Some ''ABCD1234'', deviceName = None\<rparr>) \<noteq> []
   \<and> calls (trigger_build (tool_prints ''ok'')
               (post (trigger_build (tool_fails ''network down'') init_state
                        \<lparr>t_udid = Some ''ABCD1234''\<rparr>))
               \<lparr>t_udid = Some ''ABCD1234''\<rparr>) \<noteq> []"
proof -
  let ?e = "tool_fails ''network down''"
  let ?req = "\<lparr>udid = Some ''ABCD1234'', deviceName = None\<rparr>"
  let ?treq = "\<lparr>t_udid = Some ''ABCD1234''\<rparr>"
  have n1: "\<not> has_substring ''network down'' ''already registered''"
    unfolding includes_str_iff [symmetric] by simp
  have n2: "\<not> has_substring ''network down'' ''already exists''"
    unfolding includes_str_iff [symmetric] by simp
  have name: "deviceNameSafe None ''ABCD1234'' = ''iPhone-ABCD1234''"
    by (simp add: deviceNameSafe_def falsy_def slice_last8_def)
  have h1: "udid ?req = Some ''ABCD1234'' \<and> ''ABCD1234'' \<noteq> [] \<and> ''ABCD1234'' \<notin> registeredDevices init_state
      \<and> execAsync ?e (register_call (appDir ?e) ''ABCD1234'' (deviceNameSafe (deviceName ?req) ''ABCD1234''))
          = Rejected ''network down'' ''boom''"
    by (simp add: init_state_def tool_fails_def)
  have h2: "t_udid ?treq = Some ''ABCD1234'' \<and> pendingBuilds init_state ''ABCD1234'' = None
      \<and> execAsync ?e (build_call (appDir ?e)) = Rejected ''network down'' ''boom''"
    by (simp add: init_state_def tool_fails_def)
  note t = tool_failure_keeps_state
             [of ?req "''ABCD1234''" init_state ?e "''network down''" "''boom''" ?treq "tool_prints ''ok''"]
  have r: "register_device ?e init_state ?req =
          \<lparr>resp = \<lparr>statusCode = 500,
                    body = [(''success'', JBool False), (''error'', JStr ''Erro ao registrar dispositivo''),
                            (''details'', JStr ''network down''), (''stderr'', JStr ''boom'')]\<rparr>,
           post = init_state,
           calls = [register_call ''/srv/app'' ''ABCD1234'' ''iPhone-ABCD1234'']\<rparr>"
    using t h1 n1 n2 name by (simp add: tool_fails_def)
  have b: "trigger_build ?e init_state ?treq =
          \<lparr>resp = \<lparr>statusCode = 500,
                    body = [(''success'', JBool False), (''error'', JStr ''Erro ao disparar build''),
                            (''details'', JStr ''network down''), (''stderr'', JStr ''boom'')]\<rparr>,
           post = init_state, calls = [build_call ''/srv/app'']\<rparr>"
    using t h2 by (simp add: tool_fails_def)
  have "statusCode (resp (register_device ?e init_state ?req)) = 500" by (simp add: r)
  then have r2: "calls (register_device (tool_prints ''ok'') (post (register_device ?e init_state ?req)) ?req) \<noteq> []"
    using t by blast
  have "statusCode (resp (trigger_build ?e init_state ?treq)) = 500" by (simp add: b)
  then have b2: "calls (trigger_build (tool_prints ''ok'') (post (trigger_build ?e init_state ?treq)) ?treq) \<noteq> []"
    using t by blast
  from n1 n2 r b r2 b2 show ?thesis by blast
qed

section \<open>Status query\<close>

text \<open>
  Claim C7. The status query only reads: without an entry for the identifier it answers
  200 with \<open>success: false\<close>; with an entry it answers 200 with \<open>success: true\<close> and the
  stored \<open>buildId\<close>, \<open>status\<close> and \<open>startedAt\<close> as they are; in both cases the state is
  unchanged and no subprocess is called. The handler has no failing branch.
\<close>

theorem build_status_pure_read:
  "(pendingBuilds s u = None \<longrightarrow>
      build_status s u =
        \<lparr>resp = \<lparr>statusCode = 200,
                  body = [(''success'', JBool False),
                          (''message'', JStr ''Nenhum build encontrado para este dispositivo'')]\<rparr>,
         post = s, calls = []\<rparr>)
   \<and> (\<forall>b. pendingBuilds s u = Some b \<longrightarrow>
      build_status s u =
        \<lparr>resp = \<lparr>statusCode = 200,
                  body = [(''success'', JBool True), (''buildId'', JStr (buildId b)),
                          (''status'', JStr (status b)), (''startedAt'', JStr (startedAt b))]\<rparr>,
         post = s, calls = []\<rparr>)
   \<and> post (build_status s u) = s \<and> calls (build_status s u) = []
   \<and> statusCode (resp (build_status s u)) = 200"
  by (auto simp: build_status_def json_def build_info_fields_def split: option.splits)

theorem build_status_pure_read_witness:
  "pendingBuilds init_state ''X'' = None
   \<and> build_status init_state ''X'' =
        \<lparr>resp = \<lparr>statusCode = 200,
                  body = [(''success'', JBool False),
                          (''message'', JStr ''Nenhum build encontrado para este dispositivo'')]\<rparr>,
         post = init_state, calls = []\<rparr>
   \<and> build_status
         (init_state\<lparr>pendingBuilds := [''X'' \<mapsto> \<lparr>buildId = ''7f3a-22'', status = ''pending'',
                                                  startedAt = ''2024-05-01T10:00:00.000Z''\<rparr>]\<rparr>) ''X'' =
        \<lparr>resp = \<lparr>statusCode = 200,
                  body = [(''success'', JBool True), (''buildId'', JStr ''7f3a-22''),
                          (''status'', JStr ''pending''),
                          (''startedAt'', JStr ''2024-05-01T10:00:00.000Z'')]\<rparr>,
         post = init_state\<lparr>pendingBuilds := [''X'' \<mapsto> \<lparr>buildId = ''7f3a-22'', status = ''pending'',
                                                  startedAt = ''2024-05-01T10:00:00.000Z''\<rparr>]\<rparr>,
         calls = []\<rparr>"
proof -
  let ?b = "\<lparr>buildId = ''7f3a-22'', status = ''pending'', startedAt = ''2024-05-01T10:00:00.000Z''\<rparr>"
  let ?s = "init_state\<lparr>pendingBuilds := [''X'' \<mapsto> ?b]\<rparr>"
  have none: "pendingBuilds init_state ''X'' = None" by (simp add: init_state_def)
  have some: "pendingBuilds ?s ''X'' = Some ?b" by simp
  from build_status_pure_read [of init_state "''X''"] none
       build_status_pure_read [of ?s "''X''"] some
  show ?thesis by simp
qed

section \<open>Manifest\<close>

text \<open>
  Claim C9. Whatever is found at the manifest path, the response carries the five headers
  set at the start of the handler, with these values and in this order; the absent file
  gives 404, the unreadable one 500, both with a plain text, and the readable one 200 with
  its content.
\<close>

theorem manifest_headers:
  "headers (manifest_plist f) =
     [(''Content-Type'', ''application/xml; charset=utf-8''),
      (''Cache-Control'', ''no-cache, no-store, must-revalidate''),
      (''Pragma'', ''no-cache''), (''Expires'', ''0''),
      (''Access-Control-Allow-Origin'', ''*'')]
   \<and> t_status (manifest_plist Absent) = 404
   \<and> t_body (manifest_plist Absent) = ''manifest.plist not found''
   \<and> t_status (manifest_plist Unreadable) = 500
   \<and> t_body (manifest_plist Unreadable) = ''Error reading manifest.plist''
   \<and> t_status (manifest_plist (Content c)) = 200
   \<and> t_body (manifest_plist (Content c)) = c"
  by (cases f)
     (simp_all add: manifest_plist_def setHeader_def send_def set_status_def fresh_response_def)

section \<open>Extraction of the build identifier\<close>

lemma regex_match_occurrence:
  assumes "regex_match ''build ID: '' out = Some tok"
  shows "\<exists>pre suf. build_id_occurrence out pre tok suf
           \<and> (suf = [] \<or> \<not> is_token_char (hd suf))
           \<and> (\<forall>pre' tok' suf'. build_id_occurrence out pre' tok' suf' \<longrightarrow> length pre \<le> length pre')"
proof -
  from regex_match_Some [OF assms] obtain pre rest where
    split: "out = pre @ rest" and here: "match_here ''build ID: '' rest = Some tok"
    and first: "\<forall>pre' rest'. out = pre' @ rest' \<and> length pre' < length pre
                  \<longrightarrow> match_here ''build ID: '' rest' = None"
    by blast
  from here obtain l suf where
    rest: "rest = l @ tok @ suf" and lit: "same_ignoring_case l ''build ID: ''"
    and tok: "tok \<noteq> []" "\<forall>c\<in>set tok. is_token_char c"
    and stop: "suf = [] \<or> \<not> is_token_char (hd suf)"
    unfolding match_here_iff by blast
  have occ: "build_id_occurrence out pre tok suf"
    unfolding build_id_occurrence_def using split rest lit tok by blast
  have "length pre \<le> length pre'" if "build_id_occurrence out pre' tok' suf'" for pre' tok' suf'
  proof (rule ccontr)
    assume "\<not> length pre \<le> length pre'"
    then have less: "length pre' < length pre" by simp
    from that obtain l' where
      o: "out = pre' @ l' @ tok' @ suf'" "same_ignoring_case l' ''build ID: ''"
         "tok' \<noteq> []" "\<forall>c\<in>set tok'. is_token_char c"
      unfolding build_id_occurrence_def by blast
    then have "match_here ''build ID: '' (l' @ tok' @ suf') \<noteq> None"
      unfolding match_here_None_iff by blast
    moreover have "match_here ''build ID: '' (l' @ tok' @ suf') = None"
      using first o(1) less by blast
    ultimately show False by simp
  qed
  with occ stop show ?thesis by blast
qed

lemma regex_match_no_occurrence:
  "regex_match ''build ID: '' out = None \<longleftrightarrow> \<not> (\<exists>pre tok suf. build_id_occurrence out pre tok suf)"
proof
  assume none: "regex_match ''build ID: '' out = None"
  show "\<not> (\<exists>pre tok suf. build_id_occurrence out pre tok suf)"
  proof
    assume "\<exists>pre tok suf. build_id_occurrence out pre tok suf"
    then obtain pre tok suf l where
      o: "out = pre @ l @ tok @ suf" "same_ignoring_case l ''build ID: ''"
         "tok \<noteq> []" "\<forall>c\<in>set tok. is_token_char c"
      unfolding build_id_occurrence_def by blast
    then have "match_here ''build ID: '' (l @ tok @ suf) \<noteq> None"
      unfolding match_here_None_iff by blast
    moreover have "match_here ''build ID: '' (l @ tok @ suf) = None"
      using regex_match_None [OF none] o(1) by blast
    ultimately show False by simp
  qed
next
  assume no: "\<not> (\<exists>pre tok suf. build_id_occurrence out pre tok suf)"
  show "regex_match ''build ID: '' out = None"
  proof (cases "regex_match ''build ID: '' out")
    case None
    then show ?thesis .
  next
    case (Some tok)
    with regex_match_occurrence no show ?thesis by blast
  qed
qed

text \<open>
  Claim C6. When the trigger handler runs the subprocess and it succeeds, the \<open>buildId\<close>
  in the response and in the stored object is what the pattern extracts from the standard
  output: if the output has no occurrence of \<open>build ID: <token>\<close> (letters in any case,
  token a non-empty run of alphanumerics and hyphens) it is the sentinel \<open>unknown\<close>;
  otherwise it is the token of the leftmost occurrence, taken as far as it extends.
\<close>

theorem build_id_extraction:
  assumes "t_udid req = Some u" and "u \<noteq> []" and "pendingBuilds s u = None"
    and "execAsync e (build_call (appDir e)) = Resolved out err"
  shows "map_of (body (resp (trigger_build e s req))) ''buildId'' = Some (JStr (extract_build_id out))
       \<and> map_option buildId (pendingBuilds (post (trigger_build e s req)) u)
           = Some (extract_build_id out)
       \<and> (\<not> (\<exists>pre tok suf. build_id_occurrence out pre tok suf) \<longrightarrow>
            extract_build_id out = ''unknown'')
       \<and> ((\<exists>pre tok suf. build_id_occurrence out pre tok suf) \<longrightarrow>
            (\<exists>pre suf. build_id_occurrence out pre (extract_build_id out) suf
               \<and> (suf = [] \<or> \<not> is_token_char (hd suf))
               \<and> (\<forall>pre' tok' suf'. build_id_occurrence out pre' tok' suf'
                     \<longrightarrow> length pre \<le> length pre')))"
proof (intro conjI impI)
  show "map_of (body (resp (trigger_build e s req))) ''buildId'' = Some (JStr (extract_build_id out))"
    using assms by (simp add: trigger_build_def falsy_def json_def Let_def)
  show "map_option buildId (pendingBuilds (post (trigger_build e s req)) u)
           = Some (extract_build_id out)"
    using assms by (simp add: trigger_build_def falsy_def json_def Let_def)
next
  assume "\<not> (\<exists>pre tok suf. build_id_occurrence out pre tok suf)"
  then have "regex_match ''build ID: '' out = None"
    using regex_match_no_occurrence by blast
  then show "extract_build_id out = ''unknown''" by (simp add: extract_build_id_eq)
next
  assume "\<exists>pre tok suf. build_id_occurrence out pre tok suf"
  then obtain tok where m: "regex_match ''build ID: '' out = Some tok"
    using regex_match_no_occurrence [of out] by (cases "regex_match ''build ID: '' out") auto
  then have "extract_build_id out = tok" by (simp add: extract_build_id_eq)
  with regex_match_occurrence [OF m]
  show "\<exists>pre suf. build_id_occurrence out pre (extract_build_id out) suf
               \<and> (suf = [] \<or> \<not> is_token_char (hd suf))
               \<and> (\<forall>pre' tok' suf'. build_id_occurrence out pre' tok' suf'
                     \<longrightarrow> length pre \<le> length pre')"
    by simp
qed

theorem build_id_extraction_witness:
  "build_id_occurrence ''Queued. Build ID: 7f3a-22 (ios)'' ''Queued. '' ''7f3a-22'' '' (ios)''
   \<and> map_of (body (resp (trigger_build (tool_prints ''Queued. Build ID: 7f3a-22 (ios)'') init_state
                           \<lparr>t_udid = Some ''X''\<rparr>))) ''buildId'' = Some (JStr ''7f3a-22'')
   \<and> map_option buildId
        (pendingBuilds (post (trigger_build (tool_prints ''Queued. Build ID: 7f3a-22 (ios)'') init_state
                                \<lparr>t_udid = Some ''X''\<rparr>)) ''X'') = Some ''7f3a-22''
   \<and> map_of (body (resp (trigger_build (tool_prints ''Build queued'') init_state
                           \<lparr>t_udid = Some ''X''\<rparr>))) ''buildId'' = Some (JStr ''unknown'')"
proof -
  let ?out = "''Queued. Build ID: 7f3a-22 (ios)''"
  let ?req = "\<lparr>t_udid = Some ''X''\<rparr>"
  have occ: "build_id_occurrence ?out ''Queued. '' ''7f3a-22'' '' (ios)''"
    unfolding build_id_occurrence_def
  proof (intro exI [of _ "''Build ID: ''"] conjI)
    show "same_ignoring_case ''Build ID: '' ''build ID: ''" by code_simp
    show "\<forall>c\<in>set ''7f3a-22''. is_token_char c" by (simp add: is_token_char_def)
  qed simp_all
  have pre: "t_udid ?req = Some ''X''" "''X'' \<noteq> []" "pendingBuilds init_state ''X'' = None"
    by (simp_all add: init_state_def)
  have x1: "execAsync (tool_prints ?out) (build_call (appDir (tool_prints ?out))) = Resolved ?out []"
    by (simp add: tool_prints_def)
  have x2: "execAsync (tool_prints ''Build queued'') (build_call (appDir (tool_prints ''Build queued'')))
              = Resolved ''Build queued'' []"
    by (simp add: tool_prints_def)
  have v1: "extract_build_id ?out = ''7f3a-22''" by code_simp
  have "regex_match ''build ID: '' ''Build queued'' = None" by code_simp
  then have none: "\<not> (\<exists>pre tok suf. build_id_occurrence ''Build queued'' pre tok suf)"
    using regex_match_no_occurrence by blast
  note a = build_id_extraction [OF pre x1]
  note b = build_id_extraction [OF pre x2]
  from occ have "\<exists>pre tok suf. build_id_occurrence ?out pre tok suf" by blast
  with a have "\<exists>pre suf. build_id_occurrence ?out pre (extract_build_id ?out) suf" by blast
  from b none have "extract_build_id ''Build queued'' = ''unknown''" by blast
  with a b v1 occ show ?thesis by simp
qed



section \<open>Monotonic containers\<close>




section \<open>Stored build objects\<close>

text \<open>
  Claim C10. In every state the process can be in, every stored build object has the
  status \<open>pending\<close> and a \<open>buildId\<close> that is the sentinel \<open>unknown\<close> or a non-empty run
  of alphanumerics and hyphens; hence every answer of the trigger handler and of the
  status query with \<open>success: true\<close> reports the status \<open>pending\<close> and a \<open>buildId\<close> of
  that shape.
\<close>

theorem stored_builds_pending:
  assumes "proc_reachable p"
  shows "(\<forall>u b. pendingBuilds (store p) u = Some b \<longrightarrow>
                 status b = ''pending'' \<and> build_id_shape (buildId b))
       \<and> (map_of (body (resp (trigger_build e (store p) req))) ''success'' = Some (JBool True) \<longrightarrow>
            map_of (body (resp (trigger_build e (store p) req))) ''status'' = Some (JStr ''pending'')
            \<and> (\<exists>bid. map_of (body (resp (trigger_build e (store p) req))) ''buildId'' = Some (JStr bid)
                  \<and> build_id_shape bid))
       \<and> (map_of (body (resp (build_status (store p) u))) ''success'' = Some (JBool True) \<longrightarrow>
            map_of (body (resp (build_status (store p) u))) ''status'' = Some (JStr ''pending'')
            \<and> (\<exists>bid. map_of (body (resp (build_status (store p) u))) ''buildId'' = Some (JStr bid)
                  \<and> build_id_shape bid))"
proof -
  let ?s = "store p"
  have inv: "\<forall>u b. pendingBuilds ?s u = Some b \<longrightarrow> status b = ''pending'' \<and> build_id_shape (buildId b)"
    using assms proc_reachable_inv [of p] unfolding state_inv_def by blast
  have t: "map_of (body (resp (trigger_build e ?s req))) ''status'' = Some (JStr ''pending'')
            \<and> (\<exists>bid. map_of (body (resp (trigger_build e ?s req))) ''buildId'' = Some (JStr bid)
                  \<and> build_id_shape bid)"
    if "map_of (body (resp (trigger_build e ?s req))) ''success'' = Some (JBool True)"
    using that inv extract_build_id_shape
    by (auto simp: trigger_build_def json_def status_json_def Let_def
             split: if_splits option.splits exec_result.splits)
  have q: "map_of (body (resp (build_status ?s u))) ''status'' = Some (JStr ''pending'')
            \<and> (\<exists>bid. map_of (body (resp (build_status ?s u))) ''buildId'' = Some (JStr bid)
                  \<and> build_id_shape bid)"
    if "map_of (body (resp (build_status ?s u))) ''success'' = Some (JBool True)"
    using that inv
    by (auto simp: build_status_def json_def build_info_fields_def split: option.splits)
  from inv t q show ?thesis by blast
qed

theorem stored_builds_pending_witness:
  "proc_reachable
     \<lparr>store = step init_state (TriggerBuild (tool_prints ''Build queued'') \<lparr>t_udid = Some ''X''\<rparr>),
      suspended = []\<rparr>
   \<and> pendingBuilds (step init_state (TriggerBuild (tool_prints ''Build queued'') \<lparr>t_udid = Some ''X''\<rparr>)) ''X''
       = Some \<lparr>buildId = ''unknown'', status = ''pending'', startedAt = ''2024-05-01T10:00:00.000Z''\<rparr>
   \<and> build_id_shape ''unknown''
   \<and> map_of (body (resp (trigger_build (tool_prints ''Build ID: 7f3a-22'') init_state
                           \<lparr>t_udid = Some ''X''\<rparr>))) ''success'' = Some (JBool True)
   \<and> map_of (body (resp (trigger_build (tool_prints ''Build ID: 7f3a-22'') init_state
                           \<lparr>t_udid = Some ''X''\<rparr>))) ''status'' = Some (JStr ''pending'')
   \<and> map_of (body (resp (build_status
         (step init_state (TriggerBuild (tool_prints ''Build queued'') \<lparr>t_udid = Some ''X''\<rparr>)) ''X'')))
        ''status'' = Some (JStr ''pending'')"
proof -
  let ?s1 = "step init_state (TriggerBuild (tool_prints ''Build queued'') \<lparr>t_udid = Some ''X''\<rparr>)"
  let ?e = "tool_prints ''Build ID: 7f3a-22''"
  let ?req = "\<lparr>t_udid = Some ''X''\<rparr>"
  have r0: "proc_reachable \<lparr>store = init_state, suspended = []\<rparr>" by (rule init_reachable)
  have r1: "proc_reachable \<lparr>store = ?s1, suspended = []\<rparr>"
    by (rule step_reachable [OF init_reachable])
  have ex: "extract_build_id ''Build queued'' = ''unknown''" by code_simp
  have p: "pendingBuilds ?s1 ''X''
       = Some \<lparr>buildId = ''unknown'', status = ''pending'', startedAt = ''2024-05-01T10:00:00.000Z''\<rparr>"
    by (simp add: step_def trigger_build_def falsy_def init_state_def tool_prints_def Let_def ex)
  have ok: "map_of (body (resp (trigger_build ?e init_state ?req))) ''success'' = Some (JBool True)"
    by (simp add: trigger_build_def falsy_def init_state_def tool_prints_def Let_def json_def)
  have ok2: "map_of (body (resp (build_status ?s1 ''X''))) ''success'' = Some (JBool True)"
    by (simp add: build_status_def p json_def)
  note a = stored_builds_pending [OF r1, of ?e ?req "''X''"]
  note b = stored_builds_pending [OF r0, of ?e ?req "''X''"]
  from a p have "build_id_shape ''unknown''" by fastforce
  with a b p ok ok2 r1 show ?thesis by simp
qed

end
